theory Spec2Isabelle
  imports Main "HOL-Library.Word" "HOL-Library.Multiset" "HOL-Library.Sublist"
begin

section \<open>Data model of \<open>compression.py\<close>\<close>

text \<open>
  A byte of a \<open>bytes\<close> object is an integer in \<open>0..255\<close>.  Bit strings are Python
  \<open>str\<close> values over the characters \<open>0\<close> and \<open>1\<close>, modelled as \<open>string\<close>.
\<close>

type_synonym byte = "8 word"

text \<open>
  \<open>HuffmanNode\<close>: a node built by \<open>build_heap\<close> carries a byte in \<open>char\<close> and has no
  children; a node built by \<open>build_tree\<close> has \<open>char = None\<close> and both children set.
  \<open>__lt__\<close> compares the \<open>freq\<close> fields only.
\<close>

datatype HuffmanNode =
    Leaf (char: byte) (freq: nat)
  | Merged (freq: nat) (left: HuffmanNode) (right: HuffmanNode)

definition node_lt :: "HuffmanNode \<Rightarrow> HuffmanNode \<Rightarrow> bool" where
  "node_lt a b = (freq a < freq b)"

text \<open>The instance state set up by \<open>HuffmanCompressor.__init__\<close>: two dictionaries.\<close>

record HuffmanCompressor =
  codes :: "byte \<rightharpoonup> string"
  reverse_mapping :: "string \<rightharpoonup> byte"

definition init :: HuffmanCompressor where
  "init = \<lparr>codes = Map.empty, reverse_mapping = Map.empty\<rparr>"

text \<open>
  The exceptions the codec can raise.  \<open>SystemExit\<close> (from \<open>exit(0)\<close>) is not a subclass
  of \<open>Exception\<close>, so the \<open>except Exception\<close> handlers do not catch it.
\<close>

datatype error = ValueError | KeyError | IndexError | SystemExit

fun is_Exception :: "error \<Rightarrow> bool" where
  "is_Exception SystemExit = False"
| "is_Exception _ = True"

text \<open>
  The message of a returned \<open>(success, message)\<close> pair: a literal text, or one of the two
  f-strings that embed \<open>str(e)\<close> of the caught exception (kept as the exception).
\<close>

datatype message =
    Text string
  | Compression_failed error
  | Decompression_failed error

text \<open>
  What a call does: it returns a \<open>(success, message)\<close> pair, or the process exits
  because \<open>SystemExit\<close> escaped.
\<close>

datatype outcome = Returned bool message | Exited

text \<open>
  The pickled dictionary written by \<open>compress\<close>: the entry \<open>reverse_mapping\<close> and the
  entry \<open>compressed_data\<close>.
\<close>

type_synonym artifact = "(string \<rightharpoonup> byte) \<times> byte list"

section \<open>Bit strings\<close>

text \<open>\<open>bin(n)[2:]\<close>: the binary digits of a non-negative integer, \<open>0\<close> for zero.\<close>

definition bit_char :: "nat \<Rightarrow> char" where
  "bit_char d = (if d = 0 then CHR ''0'' else CHR ''1'')"

fun bin_digits :: "nat \<Rightarrow> string" where
  "bin_digits n = (if n < 2 then [bit_char n] else bin_digits (n div 2) @ [bit_char (n mod 2)])"

declare bin_digits.simps [simp del]

text \<open>\<open>str.rjust(width, fill)\<close>.\<close>

definition rjust :: "nat \<Rightarrow> char \<Rightarrow> string \<Rightarrow> string" where
  "rjust width fill s = replicate (width - length s) fill @ s"

text \<open>\<open>"{0:08b}".format(n)\<close>: binary digits, zero-filled on the left to at least 8.\<close>

definition format_08b :: "nat \<Rightarrow> string" where
  "format_08b n = rjust 8 (CHR ''0'') (bin_digits n)"

text \<open>
  \<open>int(s, 2)\<close> on the strings this program passes to it: the empty string raises
  \<open>ValueError\<close>, a non-empty string over \<open>0\<close> and \<open>1\<close> is read most significant bit
  first.  Every string that reaches \<open>int\<close> here is cut from a bit string built with
  \<open>bin\<close>, \<open>format\<close> or the code letters \<open>0\<close> and \<open>1\<close>; a string with any other
  character is rejected by the model.
\<close>

definition is_bit :: "char \<Rightarrow> bool" where
  "is_bit c = (c = CHR ''0'' \<or> c = CHR ''1'')"

definition bits_value :: "string \<Rightarrow> nat" where
  "bits_value s = foldl (\<lambda>acc c. 2 * acc + (if c = CHR ''1'' then 1 else 0)) 0 s"

definition int2 :: "string \<Rightarrow> error + nat" where
  "int2 s = (if s = [] \<or> \<not> list_all is_bit s then Inl ValueError else Inr (bits_value s))"

text \<open>
  The slice \<open>s[:j]\<close> of Python: a negative \<open>j\<close> counts from the end and is clamped at
  the start of the sequence; \<open>s[:-0]\<close> is \<open>s[:0]\<close>.
\<close>

definition slice_upto :: "'a list \<Rightarrow> int \<Rightarrow> 'a list" where
  "slice_upto s j = (if j < 0 then take (nat (int (length s) + j)) s else take (nat j) s)"

section \<open>Bit packer and unpacker\<close>

definition pad_encoded_text :: "string \<Rightarrow> string" where
  "pad_encoded_text encoded_text =
     (let extra_padding = 8 - length encoded_text mod 8;
          encoded_text' = encoded_text @ replicate extra_padding (CHR ''0'');
          padded_info = format_08b extra_padding
      in padded_info @ encoded_text')"

text \<open>
  The loop of \<open>get_byte_array\<close> over \<open>range(0, len, 8)\<close>: each slice of 8 characters is
  parsed and appended; \<open>bytearray.append\<close> raises \<open>ValueError\<close> outside \<open>range(256)\<close>.
\<close>

function byte_loop :: "string \<Rightarrow> error + byte list" where
  "byte_loop s =
     (if s = [] then Inr []
      else (case int2 (take 8 s) of
              Inl e \<Rightarrow> Inl e
            | Inr v \<Rightarrow>
                if v < 256 then
                  (case byte_loop (drop 8 s) of
                     Inl e \<Rightarrow> Inl e
                   | Inr b \<Rightarrow> Inr (of_nat v # b))
                else Inl ValueError))"
  by pat_completeness auto
termination
  by (relation "measure length") auto

declare byte_loop.simps [simp del]

definition get_byte_array :: "string \<Rightarrow> error + byte list" where
  "get_byte_array padded_encoded_text =
     (if length padded_encoded_text mod 8 \<noteq> 0 then Inl SystemExit
      else byte_loop padded_encoded_text)"

definition remove_padding :: "string \<Rightarrow> error + string" where
  "remove_padding padded_encoded_text =
     (let padded_info = take 8 padded_encoded_text in
      case int2 padded_info of
        Inl e \<Rightarrow> Inl e
      | Inr extra_padding \<Rightarrow>
          (let padded_encoded_text' = drop 8 padded_encoded_text;
               encoded_text = slice_upto padded_encoded_text' (- int extra_padding)
           in Inr encoded_text))"

section \<open>Frequency model\<close>

text \<open>
  \<open>Counter(data)\<close> visits the bytes in order and, for each, stores
  \<open>get(elem, 0) + 1\<close> under the key.  A dictionary keeps its keys in the order of first
  insertion, and \<open>build_heap\<close> iterates \<open>items()\<close> in that order, so the table is an
  association list in first-occurrence order.
\<close>

fun count_elem :: "(byte \<times> nat) list \<Rightarrow> byte \<Rightarrow> (byte \<times> nat) list" where
  "count_elem [] c = [(c, 1)]"
| "count_elem ((k, n) # kvs) c =
     (if k = c then (k, n + 1) # kvs else (k, n) # count_elem kvs c)"

definition build_frequency_dict :: "byte list \<Rightarrow> (byte \<times> nat) list" where
  "build_frequency_dict data = foldl count_elem [] data"

section \<open>The priority queue: Python's \<open>heapq\<close> on a list\<close>

text \<open>
  \<open>heapq\<close> is the standard library's binary min-heap stored in a list; the four
  functions below follow \<open>Lib/heapq.py\<close>.  The element order is \<open>node_lt\<close>.
  \<open>_siftdown\<close> moves the item at \<open>pos\<close> up towards \<open>startpos\<close>; \<open>_siftup\<close> moves
  the smaller child up until a leaf position is reached and then sifts the item down
  into place.  Both are only called with \<open>pos\<close> inside the list.
\<close>

function siftdown_loop ::
  "HuffmanNode list \<Rightarrow> HuffmanNode \<Rightarrow> nat \<Rightarrow> nat \<Rightarrow> HuffmanNode list \<times> nat" where
  "siftdown_loop heap newitem startpos pos =
     (if pos > startpos then
        (let parentpos = (pos - 1) div 2;
             parent = heap ! parentpos
         in if node_lt newitem parent
            then siftdown_loop (heap[pos := parent]) newitem startpos parentpos
            else (heap, pos))
      else (heap, pos))"
  by pat_completeness auto
termination
  by (relation "measure (\<lambda>(heap, newitem, startpos, pos). pos)") auto

declare siftdown_loop.simps [simp del]

definition siftdown :: "HuffmanNode list \<Rightarrow> nat \<Rightarrow> nat \<Rightarrow> HuffmanNode list" where
  "siftdown heap startpos pos =
     (let newitem = heap ! pos;
          (heap', pos') = siftdown_loop heap newitem startpos pos
      in heap'[pos' := newitem])"

function siftup_loop :: "HuffmanNode list \<Rightarrow> nat \<Rightarrow> nat \<Rightarrow> HuffmanNode list \<times> nat" where
  "siftup_loop heap endpos pos =
     (let childpos = 2 * pos + 1 in
      if childpos < endpos then
        (let rightpos = childpos + 1;
             childpos' = (if rightpos < endpos \<and> \<not> node_lt (heap ! childpos) (heap ! rightpos)
                          then rightpos else childpos)
         in siftup_loop (heap[pos := heap ! childpos']) endpos childpos')
      else (heap, pos))"
  by pat_completeness auto
termination
  by (relation "measure (\<lambda>(heap, endpos, pos). endpos - pos)") (auto simp: Let_def)

declare siftup_loop.simps [simp del]

definition siftup :: "HuffmanNode list \<Rightarrow> nat \<Rightarrow> HuffmanNode list" where
  "siftup heap pos =
     (let endpos = length heap;
          startpos = pos;
          newitem = heap ! pos;
          (heap', pos') = siftup_loop heap endpos pos
      in siftdown (heap'[pos' := newitem]) startpos pos')"

definition heappush :: "HuffmanNode list \<Rightarrow> HuffmanNode \<Rightarrow> HuffmanNode list" where
  "heappush heap item = (let heap' = heap @ [item] in siftdown heap' 0 (length heap' - 1))"

text \<open>\<open>heappop\<close> returns the popped item and the remaining heap; \<open>list.pop\<close> on an empty
  list raises \<open>IndexError\<close>.\<close>

definition heappop :: "HuffmanNode list \<Rightarrow> error + (HuffmanNode \<times> HuffmanNode list)" where
  "heappop heap =
     (if heap = [] then Inl IndexError
      else (let lastelt = last heap;
                heap' = butlast heap
            in if heap' \<noteq> [] then
                 (let returnitem = heap' ! 0;
                      heap'' = heap'[0 := lastelt]
                  in Inr (returnitem, siftup heap'' 0))
               else Inr (lastelt, heap')))"

section \<open>Tree builder\<close>

definition build_heap :: "(byte \<times> nat) list \<Rightarrow> HuffmanNode list" where
  "build_heap frequency = foldl (\<lambda>heap (c, f). heappush heap (Leaf c f)) [] frequency"

text \<open>The heap operations keep the length of the list; \<open>build_tree\<close> terminates by it.\<close>

lemma length_siftdown_loop:
  "siftdown_loop heap newitem startpos pos = (heap', pos') \<Longrightarrow> length heap' = length heap"
proof (induction heap newitem startpos pos rule: siftdown_loop.induct)
  case (1 heap newitem startpos pos)
  then show ?case
    by (simp add: siftdown_loop.simps [of heap] Let_def split: if_splits)
qed

lemma length_siftdown [simp]: "length (siftdown heap startpos pos) = length heap"
  by (auto simp: siftdown_def Let_def split: prod.splits dest: length_siftdown_loop)

lemma length_siftup_loop:
  "siftup_loop heap endpos pos = (heap', pos') \<Longrightarrow> length heap' = length heap"
proof (induction heap endpos pos rule: siftup_loop.induct)
  case (1 heap endpos pos)
  then show ?case
    by (simp add: siftup_loop.simps [of heap] Let_def split: if_splits)
qed

lemma length_siftup [simp]: "length (siftup heap pos) = length heap"
  by (auto simp: siftup_def Let_def split: prod.splits dest: length_siftup_loop)

lemma length_heappush [simp]: "length (heappush heap item) = Suc (length heap)"
  by (simp add: heappush_def Let_def)

lemma length_heappop:
  "heappop heap = Inr (item, heap') \<Longrightarrow> Suc (length heap') = length heap"
  by (cases heap rule: rev_cases) (auto simp: heappop_def Let_def split: if_splits)

text \<open>
  \<open>build_tree\<close>: while more than one node is queued, pop two, merge, push.  The result
  is \<open>heap[0]\<close>, or \<open>None\<close> for an empty heap.
\<close>

function build_tree :: "HuffmanNode list \<Rightarrow> error + HuffmanNode option" where
  "build_tree heap =
     (if length heap > 1 then
        (case heappop heap of
           Inl e \<Rightarrow> Inl e
         | Inr (node1, heap1) \<Rightarrow>
             (case heappop heap1 of
                Inl e \<Rightarrow> Inl e
              | Inr (node2, heap2) \<Rightarrow>
                  (let merged = Merged (freq node1 + freq node2) node1 node2
                   in build_tree (heappush heap2 merged))))
      else (case heap of [] \<Rightarrow> Inr None | root # _ \<Rightarrow> Inr (Some root)))"
  by pat_completeness auto
termination
proof (relation "measure length", goal_cases)
  case 1
  show ?case by simp
next
  case (2 heap r1 node1 heap1 r2 node2 heap2 merged)
  then show ?case
    using length_heappop [of heap node1 heap1] length_heappop [of heap1 node2 heap2]
    by simp
qed

declare build_tree.simps [simp del]

section \<open>Code table generator\<close>

text \<open>
  \<open>build_codes\<close> writes into the two dictionaries of the instance.  A node with a
  \<open>char\<close> stores the accumulated code and returns; any other node recurses left with
  \<open>0\<close> and right with \<open>1\<close> appended.  (The \<open>print()\<close> call only writes a newline
  to standard output.)
\<close>

fun build_codes :: "HuffmanCompressor \<Rightarrow> HuffmanNode \<Rightarrow> string \<Rightarrow> HuffmanCompressor" where
  "build_codes self (Leaf c f) current_code =
     self\<lparr>codes := (codes self)(c \<mapsto> current_code),
          reverse_mapping := (reverse_mapping self)(current_code \<mapsto> c)\<rparr>"
| "build_codes self (Merged f l r) current_code =
     build_codes (build_codes self l (current_code @ ''0'')) r (current_code @ ''1'')"

text \<open>The call \<open>self.build_codes(root)\<close> with the default \<open>current_code=""\<close>;
  a \<open>None\<close> root returns at once.\<close>

definition build_codes_root :: "HuffmanCompressor \<Rightarrow> HuffmanNode option \<Rightarrow> HuffmanCompressor" where
  "build_codes_root self root =
     (case root of None \<Rightarrow> self | Some node \<Rightarrow> build_codes self node [])"

text \<open>\<open>get_encoded_text\<close>: \<open>self.codes[char]\<close> raises \<open>KeyError\<close> on a missing key.\<close>

fun encode_loop :: "(byte \<rightharpoonup> string) \<Rightarrow> string \<Rightarrow> byte list \<Rightarrow> error + string" where
  "encode_loop cs encoded_text [] = Inr encoded_text"
| "encode_loop cs encoded_text (c # text) =
     (case cs c of
        None \<Rightarrow> Inl KeyError
      | Some code \<Rightarrow> encode_loop cs (encoded_text @ code) text)"

definition get_encoded_text :: "HuffmanCompressor \<Rightarrow> byte list \<Rightarrow> error + string" where
  "get_encoded_text self text = encode_loop (codes self) [] text"

section \<open>Compression\<close>

text \<open>
  \<open>compress\<close> takes the instance and the bytes read from the input file, and gives the
  instance afterwards, what the call does, and the artifact pickled to the output file
  (\<open>None\<close> when nothing is written).  Failures of the file system are outside the model.
  An exception leaves the instance as it was when raised.
\<close>

definition raised_in_compress ::
  "HuffmanCompressor \<Rightarrow> error \<Rightarrow> HuffmanCompressor \<times> outcome \<times> artifact option" where
  "raised_in_compress self e =
     (self, if is_Exception e then Returned False (Compression_failed e) else Exited, None)"

definition compress ::
  "HuffmanCompressor \<Rightarrow> byte list \<Rightarrow> HuffmanCompressor \<times> outcome \<times> artifact option" where
  "compress self text =
     (if length text = 0 then (self, Returned False (Text ''File is empty''), None)
      else
        (let frequency = build_frequency_dict text;
             heap = build_heap frequency
         in case build_tree heap of
              Inl e \<Rightarrow> raised_in_compress self e
            | Inr root \<Rightarrow>
                (let self' = build_codes_root self root
                 in case get_encoded_text self' text of
                      Inl e \<Rightarrow> raised_in_compress self' e
                    | Inr encoded_text \<Rightarrow>
                        (let padded_encoded_text = pad_encoded_text encoded_text
                         in case get_byte_array padded_encoded_text of
                              Inl e \<Rightarrow> raised_in_compress self' e
                            | Inr b \<Rightarrow>
                                (self', Returned True (Text ''Compression successful''),
                                 Some (reverse_mapping self', b))))))"

section \<open>Decompression\<close>

text \<open>
  \<open>decode_text\<close>: the loop state is the candidate \<open>current_code\<close> and the bytes decoded
  so far; the function returns the bytes and forgets the candidate.
\<close>

fun decode_loop ::
  "(string \<rightharpoonup> byte) \<Rightarrow> string \<Rightarrow> byte list \<Rightarrow> string \<Rightarrow> string \<times> byte list" where
  "decode_loop rm current_code decoded_bytes [] = (current_code, decoded_bytes)"
| "decode_loop rm current_code decoded_bytes (b # encoded_text) =
     (let current_code' = current_code @ [b]
      in case rm current_code' of
           Some c \<Rightarrow> decode_loop rm [] (decoded_bytes @ [c]) encoded_text
         | None \<Rightarrow> decode_loop rm current_code' decoded_bytes encoded_text)"

definition decode_text :: "HuffmanCompressor \<Rightarrow> string \<Rightarrow> byte list" where
  "decode_text self encoded_text = snd (decode_loop (reverse_mapping self) [] [] encoded_text)"

text \<open>\<open>bin(byte)[2:].rjust(8, '0')\<close>.\<close>

definition byte_bits :: "byte \<Rightarrow> string" where
  "byte_bits b = rjust 8 (CHR ''0'') (bin_digits (unat b))"

text \<open>
  \<open>decompress\<close> takes the instance and the unpickled artifact, stores the artifact's
  table in the instance, and gives the instance afterwards, what the call does, and the
  bytes written to the output file (\<open>None\<close> when nothing is written).
\<close>

definition decompress ::
  "HuffmanCompressor \<Rightarrow> artifact \<Rightarrow> HuffmanCompressor \<times> outcome \<times> byte list option" where
  "decompress self compressed_data =
     (let self' = self\<lparr>reverse_mapping := fst compressed_data\<rparr>;
          bit_string = concat (map byte_bits (snd compressed_data))
      in case remove_padding bit_string of
           Inl e \<Rightarrow>
             (self', if is_Exception e then Returned False (Decompression_failed e) else Exited,
              None)
         | Inr encoded_text \<Rightarrow>
             (self', Returned True (Text ''Decompression successful''),
              Some (decode_text self' encoded_text)))"

section \<open>Notions used to state the properties\<close>

text \<open>The bytes at the leaves of a tree, left to right.\<close>

fun symbols :: "HuffmanNode \<Rightarrow> byte list" where
  "symbols (Leaf c f) = [c]"
| "symbols (Merged f l r) = symbols l @ symbols r"

text \<open>The bytes at the leaves of all the trees queued in a heap.\<close>

definition heap_symbols :: "HuffmanNode list \<Rightarrow> byte multiset" where
  "heap_symbols heap = (\<Sum>t\<in>#mset heap. mset (symbols t))"

text \<open>
  The (byte, code) pairs that \<open>build_codes\<close> visits below a node reached with the code
  \<open>p\<close>, in the order of the traversal.
\<close>

fun paths :: "HuffmanNode \<Rightarrow> string \<Rightarrow> (byte \<times> string) list" where
  "paths (Leaf c f) p = [(c, p)]"
| "paths (Merged f l r) p = paths l (p @ ''0'') @ paths r (p @ ''1'')"

section \<open>The heap operations keep the queued nodes\<close>

lemma mset_move_hole:
  assumes "pos < length heap" "p < length heap" "p \<noteq> pos"
  shows "mset (heap[pos := heap ! p, p := x]) = mset (heap[pos := x])"
  using assms by (simp add: mset_update nth_list_update)

lemma siftdown_loop_mset:
  "siftdown_loop heap newitem startpos pos = (heap', pos') \<Longrightarrow> pos < length heap \<Longrightarrow>
   pos' < length heap' \<and> mset (heap'[pos' := newitem]) = mset (heap[pos := newitem])"
proof (induction heap newitem startpos pos rule: siftdown_loop.induct)
  case (1 heap newitem startpos pos)
  show ?case
  proof (cases "pos > startpos \<and> node_lt newitem (heap ! ((pos - 1) div 2))")
    case True
    let ?p = "(pos - 1) div 2"
    from True "1.prems" have lt: "?p < pos" "?p < length heap" by auto
    from True "1.prems"(1)
    have eq: "siftdown_loop (heap[pos := heap ! ?p]) newitem startpos ?p = (heap', pos')"
      by (simp add: siftdown_loop.simps [of heap] Let_def)
    from True have "pos' < length heap' \<and>
        mset (heap'[pos' := newitem]) = mset (heap[pos := heap ! ?p, ?p := newitem])"
      using "1.IH" [OF _ refl refl _ eq] lt by simp
    with lt "1.prems"(2) show ?thesis
      by (simp add: mset_move_hole)
  next
    case False
    with "1.prems" show ?thesis
      by (auto simp: siftdown_loop.simps [of heap] Let_def split: if_splits)
  qed
qed

lemma mset_siftdown:
  "pos < length heap \<Longrightarrow> mset (siftdown heap startpos pos) = mset heap"
  by (auto simp: siftdown_def Let_def split: prod.splits dest!: siftdown_loop_mset)

lemma siftup_loop_mset:
  "siftup_loop heap endpos pos = (heap', pos') \<Longrightarrow> pos < length heap \<Longrightarrow> endpos = length heap \<Longrightarrow>
   pos' < length heap' \<and> mset (heap'[pos' := newitem]) = mset (heap[pos := newitem])"
proof (induction heap endpos pos arbitrary: rule: siftup_loop.induct)
  case (1 heap endpos pos)
  show ?case
  proof (cases "2 * pos + 1 < endpos")
    case True
    define c where "c = (if 2 * pos + 1 + 1 < endpos \<and> \<not> node_lt (heap ! (2 * pos + 1)) (heap ! (2 * pos + 1 + 1))
                          then 2 * pos + 1 + 1 else 2 * pos + 1)"
    from True "1.prems" have lt: "c < length heap" "c \<noteq> pos" by (auto simp: c_def)
    from True "1.prems"(1)
    have eq: "siftup_loop (heap[pos := heap ! c]) endpos c = (heap', pos')"
      by (auto simp: siftup_loop.simps [of heap] Let_def c_def split: if_splits)
    have "pos' < length heap' \<and>
        mset (heap'[pos' := newitem]) = mset (heap[pos := heap ! c, c := newitem])"
      using "1.IH" [OF refl True refl c_def eq] lt "1.prems" by simp
    with lt "1.prems"(2) show ?thesis
      by (simp add: mset_move_hole)
  next
    case False
    with "1.prems" show ?thesis
      by (auto simp: siftup_loop.simps [of heap] Let_def split: if_splits)
  qed
qed

lemma mset_siftup:
  "pos < length heap \<Longrightarrow> mset (siftup heap pos) = mset heap"
  apply (auto simp: siftup_def Let_def split: prod.splits)
  subgoal for h p
    using siftup_loop_mset [of heap "length heap" pos h p "heap ! pos"]
    by (simp add: mset_siftdown)
  done

lemma mset_heappush [simp]: "mset (heappush heap item) = add_mset item (mset heap)"
  by (simp add: heappush_def Let_def mset_siftdown)

lemma mset_heappop:
  "heappop heap = Inr (item, heap') \<Longrightarrow> mset heap = add_mset item (mset heap')"
proof (cases heap rule: rev_cases)
  case Nil
  assume "heappop heap = Inr (item, heap')"
  with Nil show ?thesis by (simp add: heappop_def)
next
  case (snoc ys y)
  assume h: "heappop heap = Inr (item, heap')"
  show ?thesis
  proof (cases ys)
    case Nil
    with h snoc show ?thesis by (simp add: heappop_def Let_def)
  next
    case (Cons z zs)
    with h snoc have "item = z" "heap' = siftup (y # zs) 0"
      by (simp_all add: heappop_def Let_def)
    with snoc Cons show ?thesis by (simp add: mset_siftup)
  qed
qed

lemma heappop_nonempty:
  "heap \<noteq> [] \<Longrightarrow> \<exists>item heap'. heappop heap = Inr (item, heap')"
  by (simp add: heappop_def Let_def)


lemma keys_count_elem:
  "map fst (count_elem kvs c) = (if c \<in> fst ` set kvs then map fst kvs else map fst kvs @ [c])"
  by (induction kvs c rule: count_elem.induct) (auto simp: image_iff)

lemma keys_foldl_count_elem:
  "distinct (map fst acc) \<Longrightarrow>
   distinct (map fst (foldl count_elem acc data)) \<and>
   set (map fst (foldl count_elem acc data)) = set (map fst acc) \<union> set data"
proof (induction data arbitrary: acc)
  case Nil
  then show ?case by simp
next
  case (Cons c data)
  have "distinct (map fst (count_elem acc c))"
    using Cons.prems by (simp add: keys_count_elem)
  from Cons.IH [OF this] show ?case
    by (auto simp: keys_count_elem split: if_splits)
qed

lemma keys_build_frequency_dict:
  "distinct (map fst (build_frequency_dict data))"
  "set (map fst (build_frequency_dict data)) = set data"
  using keys_foldl_count_elem [of "[]" data] by (simp_all add: build_frequency_dict_def)

lemma heap_symbols_foldl_push:
  "heap_symbols (foldl (\<lambda>heap (c, f). heappush heap (Leaf c f)) acc frequency) =
   heap_symbols acc + mset (map fst frequency)"
  by (induction frequency arbitrary: acc) (auto simp: heap_symbols_def)

lemma heap_symbols_build_heap:
  "heap_symbols (build_heap frequency) = mset (map fst frequency)"
  by (simp add: build_heap_def heap_symbols_foldl_push) (simp add: heap_symbols_def)

lemma length_build_heap: "length (build_heap frequency) = length frequency"
proof -
  have "length (foldl (\<lambda>heap (c, f). heappush heap (Leaf c f)) acc frequency) =
        length acc + length frequency" for acc
    by (induction frequency arbitrary: acc) auto
  then show ?thesis by (simp add: build_heap_def)
qed

lemma build_tree_root:
  "heap \<noteq> [] \<Longrightarrow>
   \<exists>root. build_tree heap = Inr (Some root) \<and> mset (symbols root) = heap_symbols heap"
proof (induction heap rule: build_tree.induct)
  case (1 heap)
  show ?case
  proof (cases "length heap > 1")
    case True
    then have "heap \<noteq> []" by auto
    then obtain node1 heap1 where p1: "heappop heap = Inr (node1, heap1)"
      using heappop_nonempty [of heap] by blast
    with True have "heap1 \<noteq> []" using length_heappop [OF p1] by auto
    then obtain node2 heap2 where p2: "heappop heap1 = Inr (node2, heap2)"
      using heappop_nonempty [of heap1] by blast
    let ?m = "Merged (freq node1 + freq node2) node1 node2"
    have ne: "heappush heap2 ?m \<noteq> []"
      using length_heappush [of heap2 ?m] by (metis length_0_conv nat.distinct(1))
    from "1.IH" [OF True p1 refl p2 refl refl ne]
    obtain root where r: "build_tree (heappush heap2 ?m) = Inr (Some root)"
      "mset (symbols root) = heap_symbols (heappush heap2 ?m)" by blast
    have "heap_symbols (heappush heap2 ?m) = heap_symbols heap"
      using mset_heappop [OF p1] mset_heappop [OF p2] by (simp add: heap_symbols_def)
    with r True p1 p2 show ?thesis
      by (simp add: build_tree.simps [of heap])
  next
    case False
    with "1.prems" obtain root where "heap = [root]"
      by (cases heap) auto
    then show ?thesis
      by (simp add: build_tree.simps [of "[root]"] heap_symbols_def)
  qed
qed

lemma build_tree_of_text:
  assumes "text \<noteq> []"
  shows "\<exists>root. build_tree (build_heap (build_frequency_dict text)) = Inr (Some root) \<and>
           distinct (symbols root) \<and> set (symbols root) = set text"
proof -
  let ?fr = "build_frequency_dict text"
  have "?fr \<noteq> []" using keys_build_frequency_dict(2) [of "text"] assms by auto
  then have "build_heap ?fr \<noteq> []" using length_build_heap [of ?fr] by auto
  from build_tree_root [OF this] obtain root where
    r: "build_tree (build_heap ?fr) = Inr (Some root)"
       "mset (symbols root) = mset (map fst ?fr)"
    unfolding heap_symbols_build_heap by blast
  from r(2) have "distinct (symbols root)" "set (symbols root) = set text"
    using keys_build_frequency_dict [of "text"] mset_eq_imp_distinct_iff mset_eq_setD by metis+
  with r(1) show ?thesis by blast
qed


lemma keys_paths: "map fst (paths t p) = symbols t"
  by (induction t arbitrary: p) auto

lemma codes_build_codes:
  "codes (build_codes self t p) = codes self ++ map_of (rev (paths t p))"
  by (induction t arbitrary: self p) (auto simp: map_add_def fun_eq_iff split: option.splits)

lemma reverse_mapping_build_codes:
  "reverse_mapping (build_codes self t p) =
   reverse_mapping self ++ map_of (rev (map (\<lambda>(c, q). (q, c)) (paths t p)))"
  by (induction t arbitrary: self p) (auto simp: map_add_def fun_eq_iff split: option.splits)

lemma paths_extend: "(c, q) \<in> set (paths t p) \<Longrightarrow> prefix p q"
proof (induction t arbitrary: p)
  case (Leaf c' f)
  then show ?case by simp
next
  case (Merged f l r)
  then show ?case by (auto dest: append_prefixD)
qed

lemma paths_bits:
  "(c, q) \<in> set (paths t p) \<Longrightarrow> list_all is_bit p \<Longrightarrow> list_all is_bit q"
  by (induction t arbitrary: p) (auto simp: is_bit_def)

lemma branches_differ: "prefix (p @ ''0'') q \<Longrightarrow> prefix (p @ ''1'') q \<Longrightarrow> False"
  by (auto simp: prefix_def)

lemma paths_prefix_free:
  "(c1, q1) \<in> set (paths t p) \<Longrightarrow> (c2, q2) \<in> set (paths t p) \<Longrightarrow> c1 \<noteq> c2 \<Longrightarrow>
   \<not> prefix q1 q2"
proof (induction t arbitrary: p)
  case (Leaf c f)
  then show ?case by simp
next
  case (Merged f l r)
  from Merged.prems(1,2) consider
      "(c1, q1) \<in> set (paths l (p @ ''0''))" "(c2, q2) \<in> set (paths l (p @ ''0''))"
    | "(c1, q1) \<in> set (paths r (p @ ''1''))" "(c2, q2) \<in> set (paths r (p @ ''1''))"
    | "(c1, q1) \<in> set (paths l (p @ ''0''))" "(c2, q2) \<in> set (paths r (p @ ''1''))"
    | "(c1, q1) \<in> set (paths r (p @ ''1''))" "(c2, q2) \<in> set (paths l (p @ ''0''))"
    by auto
  then show ?case
  proof cases
    case 1
    then show ?thesis using Merged.IH(1) Merged.prems(3) by blast
  next
    case 2
    then show ?thesis using Merged.IH(2) Merged.prems(3) by blast
  next
    case 3
    show ?thesis
    proof
      assume "prefix q1 q2"
      with paths_extend [OF 3(1)] have "prefix (p @ ''0'') q2" by (rule prefix_order.trans)
      with paths_extend [OF 3(2)] show False using branches_differ by blast
    qed
  next
    case 4
    show ?thesis
    proof
      assume "prefix q1 q2"
      with paths_extend [OF 4(1)] have "prefix (p @ ''1'') q2" by (rule prefix_order.trans)
      with paths_extend [OF 4(2)] show False using branches_differ by blast
    qed
  qed
qed

section \<open>Binary digits\<close>

lemma bits_value_Nil [simp]: "bits_value [] = 0"
  by (simp add: bits_value_def)

lemma bits_value_snoc [simp]:
  "bits_value (s @ [c]) = 2 * bits_value s + (if c = CHR ''1'' then 1 else 0)"
  by (simp add: bits_value_def)

lemma bits_value_zero_Cons: "bits_value (CHR ''0'' # s) = bits_value s"
  by (simp add: bits_value_def)

lemma bits_value_zeros: "bits_value (replicate n (CHR ''0'') @ s) = bits_value s"
  by (induction n) (simp_all add: bits_value_zero_Cons)

lemma bits_value_bound: "bits_value s < 2 ^ length s"
  by (induction s rule: rev_induct) auto

lemma bin_digits_nonempty [simp]: "bin_digits n \<noteq> []"
  by (subst bin_digits.simps) simp

lemma is_bit_bit_char [simp]: "is_bit (bit_char d)"
  by (simp add: is_bit_def bit_char_def)

lemma bin_digits_bits [simp]: "list_all is_bit (bin_digits n)"
proof (induction n rule: bin_digits.induct)
  case (1 n)
  then show ?case by (subst bin_digits.simps) simp
qed

lemma bits_value_bin_digits [simp]: "bits_value (bin_digits n) = n"
proof (induction n rule: bin_digits.induct)
  case (1 n)
  show ?case
  proof (cases "n < 2")
    case True
    then have "n = 0 \<or> n = 1" by auto
    then show ?thesis
      by (subst bin_digits.simps) (auto simp: bit_char_def bits_value_def)
  next
    case False
    with 1 have "bits_value (bin_digits (n div 2)) = n div 2" by simp
    moreover have "n mod 2 = 0 \<Longrightarrow> 2 * (n div 2) = n" by presburger
    moreover have "n mod 2 \<noteq> 0 \<Longrightarrow> Suc (2 * (n div 2)) = n" by presburger
    ultimately show ?thesis using False
      by (subst bin_digits.simps) (auto simp: bit_char_def)
  qed
qed

lemma length_bin_digits: "n < 2 ^ k \<Longrightarrow> 0 < k \<Longrightarrow> length (bin_digits n) \<le> k"
proof (induction n arbitrary: k rule: bin_digits.induct)
  case (1 n)
  show ?case
  proof (cases "n < 2")
    case True
    with 1 show ?thesis by (subst bin_digits.simps) simp
  next
    case False
    then obtain j where k: "k = Suc j" using "1.prems" by (cases k) auto
    with False "1.prems" have "0 < j" by (cases j) auto
    moreover have "n div 2 < 2 ^ j" using "1.prems" k by auto
    ultimately have "length (bin_digits (n div 2)) \<le> j" using "1.IH" False by simp
    with False k show ?thesis by (subst bin_digits.simps) simp
  qed
qed

lemma bits_replicate_zero [simp]: "list_all is_bit (replicate n (CHR ''0''))"
  by (simp add: list_all_iff is_bit_def)

lemma int2_rjust: "int2 (rjust w (CHR ''0'') (bin_digits n)) = Inr n"
  by (simp add: int2_def rjust_def bits_value_zeros)

lemma length_rjust_bin: "n < 256 \<Longrightarrow> length (rjust 8 (CHR ''0'') (bin_digits n)) = 8"
  using length_bin_digits [of n 8] by (simp add: rjust_def)

lemma int2_format_08b [simp]: "int2 (format_08b n) = Inr n"
  by (simp add: format_08b_def int2_rjust)

lemma length_format_08b: "n < 256 \<Longrightarrow> length (format_08b n) = 8"
  by (simp add: format_08b_def length_rjust_bin)

lemma bits_format_08b [simp]: "list_all is_bit (format_08b n)"
  by (simp add: format_08b_def rjust_def)

lemma length_byte_bits [simp]: "length (byte_bits b) = 8"
proof -
  have "unat b < 256" using unsigned_less [of b, where 'a = nat] by simp
  then show ?thesis by (simp add: byte_bits_def length_rjust_bin)
qed

section \<open>Padding and its removal\<close>

lemma take8_pad: "take 8 (pad_encoded_text s) = format_08b (8 - length s mod 8)"
  by (simp add: pad_encoded_text_def Let_def length_format_08b)

lemma drop8_pad:
  "drop 8 (pad_encoded_text s) = s @ replicate (8 - length s mod 8) (CHR ''0'')"
  by (simp add: pad_encoded_text_def Let_def length_format_08b)

lemma length_pad: "length (pad_encoded_text s) mod 8 = 0"
proof -
  have "length (pad_encoded_text s) = 8 + (length s + (8 - length s mod 8))"
    by (simp add: pad_encoded_text_def Let_def length_format_08b)
  moreover have "(length s + (8 - length s mod 8)) mod 8 = 0"
    by presburger
  ultimately show ?thesis by presburger
qed

lemma slice_upto_neg: "0 < p \<Longrightarrow> slice_upto s (- int p) = take (length s - p) s"
  by (simp add: slice_upto_def nat_diff_distrib')

lemma slice_upto_zero: "slice_upto s (- int 0) = []"
  by (simp add: slice_upto_def)

lemma remove_pad: "remove_padding (pad_encoded_text s) = Inr s"
proof -
  let ?k = "8 - length s mod 8"
  have "0 < ?k" by simp
  then show ?thesis
    unfolding remove_padding_def take8_pad drop8_pad Let_def
    by (simp add: slice_upto_neg del: of_nat_diff)
qed

lemma remove_padding_header:
  "int2 (take 8 s) = Inr p \<Longrightarrow> 0 < p \<Longrightarrow>
   remove_padding s = Inr (take (length s - 8 - p) (drop 8 s))"
  by (simp add: remove_padding_def Let_def slice_upto_neg)

section \<open>Packing bits into bytes and back\<close>

lemma bit_char_of_bit: "is_bit c \<Longrightarrow> bit_char (if c = CHR ''1'' then 1 else 0) = c"
  by (auto simp: is_bit_def bit_char_def)

lemma rjust_bits_value:
  "list_all is_bit s \<Longrightarrow> s \<noteq> [] \<Longrightarrow>
   rjust (length s) (CHR ''0'') (bin_digits (bits_value s)) = s"
proof (induction s rule: rev_induct)
  case Nil
  then show ?case by simp
next
  case (snoc c s)
  let ?d = "if c = CHR ''1'' then 1 else 0 :: nat"
  from snoc.prems have c: "bit_char ?d = c" and bs: "list_all is_bit s"
    by (simp_all add: bit_char_of_bit)
  have d2: "?d < 2" by simp
  show ?case
  proof (cases "s = []")
    case True
    have "bits_value [c] = ?d" by (simp add: bits_value_def)
    with True c show ?thesis
      by (simp add: rjust_def bin_digits.simps [of ?d])
  next
    case False
    with snoc.IH bs have IH: "rjust (length s) (CHR ''0'') (bin_digits (bits_value s)) = s"
      by simp
    show ?thesis
    proof (cases "bits_value s = 0")
      case True
      with IH have "s = replicate (length s - 1) (CHR ''0'') @ ''0''"
        by (simp add: rjust_def bin_digits.simps [of 0] bit_char_def)
      also have "\<dots> = replicate (length s) (CHR ''0'')"
        using False by (cases "length s") (simp_all add: replicate_append_same)
      finally have "s = replicate (length s) (CHR ''0'')" .
      moreover have "bin_digits (bits_value (s @ [c])) = [c]"
        using True c by (simp add: bin_digits.simps [of ?d])
      ultimately show ?thesis
        by (simp add: rjust_def)
    next
      case nz: False
      have "bin_digits (bits_value (s @ [c])) = bin_digits (bits_value s) @ [c]"
        using nz c by (subst bin_digits.simps) auto
      with IH show ?thesis
        by (simp add: rjust_def)
    qed
  qed
qed

lemma byte_bits_of_bits:
  assumes "list_all is_bit s" "length s = 8"
  shows "byte_bits (of_nat (bits_value s)) = s"
proof -
  have "bits_value s < 256" using bits_value_bound [of s] assms(2) by simp
  then have "unat (of_nat (bits_value s) :: byte) = bits_value s"
    by (simp add: unat_of_nat)
  moreover have "s \<noteq> []" using assms(2) by auto
  ultimately show ?thesis
    using rjust_bits_value [of s] assms by (simp add: byte_bits_def)
qed

lemma byte_loop_bits:
  "list_all is_bit s \<Longrightarrow> length s mod 8 = 0 \<Longrightarrow>
   \<exists>b. byte_loop s = Inr b \<and> concat (map byte_bits b) = s"
proof (induction s rule: byte_loop.induct)
  case (1 s)
  show ?case
  proof (cases "s = []")
    case True
    then show ?thesis by (simp add: byte_loop.simps [of "[]"])
  next
    case False
    with "1.prems" have len: "8 \<le> length s" by (cases "length s < 8") auto
    then have l8: "length (take 8 s) = 8" by simp
    have b8: "list_all is_bit (take 8 s)" and bd: "list_all is_bit (drop 8 s)"
      using "1.prems"(1) by (auto simp: list_all_iff dest: in_set_takeD in_set_dropD)
    let ?v = "bits_value (take 8 s)"
    have i2: "int2 (take 8 s) = Inr ?v" using l8 b8 by (auto simp: int2_def)
    have v: "?v < 256" using bits_value_bound [of "take 8 s"] l8 by simp
    have "length (drop 8 s) mod 8 = 0" using "1.prems"(2) len
      by (simp, presburger)
    from "1.IH" [OF False i2 v bd this] obtain b where
      b: "byte_loop (drop 8 s) = Inr b" "concat (map byte_bits b) = drop 8 s" by blast
    have "byte_loop s = Inr (of_nat ?v # b)"
      using False i2 v b(1) by (simp add: byte_loop.simps [of s])
    moreover have "concat (map byte_bits (of_nat ?v # b)) = s"
      using b(2) byte_bits_of_bits [OF b8 l8] by simp
    ultimately show ?thesis by blast
  qed
qed

section \<open>Compression succeeds on every non-empty input\<close>

lemma codes_build_codes_member:
  assumes "distinct (symbols t)" "(c, q) \<in> set (paths t p)"
  shows "codes (build_codes self t p) c = Some q"
proof -
  have "distinct (map fst (rev (paths t p)))"
    using assms(1) by (simp add: rev_map [symmetric] keys_paths)
  moreover have "(c, q) \<in> set (rev (paths t p))" using assms(2) by simp
  ultimately have "map_of (rev (paths t p)) c = Some q" by (rule map_of_is_SomeI)
  then show ?thesis by (simp add: codes_build_codes)
qed

lemma codes_build_codes_other:
  "c \<notin> set (symbols t) \<Longrightarrow> codes (build_codes self t p) c = codes self c"
proof -
  assume "c \<notin> set (symbols t)"
  then have "c \<notin> fst ` set (rev (paths t p))"
    using keys_paths [of t p] by (metis image_set set_rev)
  then have "map_of (rev (paths t p)) c = None" by (simp add: map_of_eq_None_iff)
  then show ?thesis by (simp add: codes_build_codes map_add_def)
qed

lemma symbol_has_path: "c \<in> set (symbols t) \<Longrightarrow> \<exists>q. (c, q) \<in> set (paths t p)"
proof -
  assume "c \<in> set (symbols t)"
  then have "c \<in> fst ` set (paths t p)" using keys_paths [of t p] by (metis image_set)
  then show ?thesis by auto
qed

lemma encode_loop_total:
  "\<forall>c\<in>set text. \<exists>q. cs c = Some q \<Longrightarrow>
   encode_loop cs acc text = Inr (acc @ concat (map (\<lambda>c. the (cs c)) text))"
  by (induction "text" arbitrary: acc) auto

lemma bits_concat_codes:
  "\<forall>c\<in>set text. \<exists>q. cs c = Some q \<and> list_all is_bit q \<Longrightarrow>
   list_all is_bit (concat (map (\<lambda>c. the (cs c)) text))"
  by (induction "text") auto

lemma bits_pad: "list_all is_bit s \<Longrightarrow> list_all is_bit (pad_encoded_text s)"
  by (simp add: pad_encoded_text_def Let_def)

lemma get_byte_array_pad:
  assumes "list_all is_bit s"
  shows "\<exists>b. get_byte_array (pad_encoded_text s) = Inr b \<and>
             concat (map byte_bits b) = pad_encoded_text s"
  using byte_loop_bits [OF bits_pad [OF assms] length_pad]
  by (simp add: get_byte_array_def length_pad)

lemma compress_nonempty:
  assumes "text \<noteq> []"
  shows "\<exists>root b. build_tree (build_heap (build_frequency_dict text)) = Inr (Some root) \<and>
           distinct (symbols root) \<and> set (symbols root) = set text \<and>
           get_encoded_text (build_codes self root []) text =
             Inr (concat (map (\<lambda>c. the (codes (build_codes self root []) c)) text)) \<and>
           list_all is_bit (concat (map (\<lambda>c. the (codes (build_codes self root []) c)) text)) \<and>
           get_byte_array (pad_encoded_text
             (concat (map (\<lambda>c. the (codes (build_codes self root []) c)) text))) = Inr b \<and>
           concat (map byte_bits b) = pad_encoded_text
             (concat (map (\<lambda>c. the (codes (build_codes self root []) c)) text)) \<and>
           compress self text =
             (build_codes self root [], Returned True (Text ''Compression successful''),
              Some (reverse_mapping (build_codes self root []), b))"
proof -
  from build_tree_of_text [OF assms] obtain root where
    r: "build_tree (build_heap (build_frequency_dict text)) = Inr (Some root)"
       "distinct (symbols root)" "set (symbols root) = set text" by blast
  let ?self = "build_codes self root []"
  let ?enc = "concat (map (\<lambda>c. the (codes ?self c)) text)"
  have cd: "\<forall>c\<in>set text. \<exists>q. codes ?self c = Some q \<and> list_all is_bit q"
  proof
    fix c assume "c \<in> set text"
    with r(3) obtain q where q: "(c, q) \<in> set (paths root [])"
      using symbol_has_path [of c root "[]"] by auto
    from paths_bits [OF q] codes_build_codes_member [OF r(2) q]
    show "\<exists>q. codes ?self c = Some q \<and> list_all is_bit q" by simp
  qed
  then have "\<forall>c\<in>set text. \<exists>q. codes ?self c = Some q" by blast
  from encode_loop_total [OF this, of "[]"]
  have enc: "get_encoded_text ?self text = Inr ?enc"
    by (simp add: get_encoded_text_def)
  have bits: "list_all is_bit ?enc" using bits_concat_codes [OF cd] .
  from get_byte_array_pad [OF bits] obtain b where
    b: "get_byte_array (pad_encoded_text ?enc) = Inr b"
       "concat (map byte_bits b) = pad_encoded_text ?enc" by blast
  have "compress self text =
          (?self, Returned True (Text ''Compression successful''),
           Some (reverse_mapping ?self, b))"
    using assms r(1) enc b(1) by (simp add: compress_def build_codes_root_def Let_def)
  with r enc bits b show ?thesis by blast
qed

section \<open>The header byte of an artifact\<close>

lemma int2_byte_bits [simp]: "int2 (byte_bits x) = Inr (unat x)"
  by (simp add: byte_bits_def int2_rjust)

lemma length_concat_byte_bits [simp]: "length (concat (map byte_bits bs)) = 8 * length bs"
  by (induction bs) auto

lemma header_byte:
  assumes "concat (map byte_bits b) = pad_encoded_text enc"
  shows "b \<noteq> [] \<and> unat (hd b) = 8 - length enc mod 8"
proof -
  have "length (take 8 (pad_encoded_text enc)) = 8"
    by (simp only: take8_pad) (simp add: length_format_08b)
  then have "pad_encoded_text enc \<noteq> []" by auto
  with assms have ne: "b \<noteq> []" by auto
  then obtain x bs where b: "b = x # bs" by (cases b) auto
  with assms have "byte_bits x = take 8 (pad_encoded_text enc)"
    by (metis append_eq_conv_conj concat.simps(2) length_byte_bits list.simps(9))
  then have "int2 (byte_bits x) = Inr (8 - length enc mod 8)"
    by (simp only: take8_pad int2_format_08b)
  with b ne show ?thesis by simp
qed

lemma payload_after_header:
  assumes "concat (map byte_bits b) = pad_encoded_text enc"
  shows "concat (map byte_bits (tl b)) = enc @ replicate (8 - length enc mod 8) (CHR ''0'')"
proof -
  from header_byte [OF assms] obtain x bs where b: "b = x # bs" by (cases b) auto
  have "concat (map byte_bits bs) = drop 8 (concat (map byte_bits b))"
    by (simp add: b)
  also have "\<dots> = enc @ replicate (8 - length enc mod 8) (CHR ''0'')"
    by (simp only: assms drop8_pad)
  finally show ?thesis by (simp add: b)
qed

lemma compress_header:
  assumes "text \<noteq> []"
  shows "\<exists>self' out rm b enc.
           compress self text = (self', out, Some (rm, b)) \<and>
           get_encoded_text self' text = Inr enc \<and> b \<noteq> [] \<and>
           unat (hd b) = 8 - length enc mod 8 \<and> 1 \<le> unat (hd b) \<and> unat (hd b) \<le> 8 \<and>
           concat (map byte_bits (tl b)) = enc @ replicate (unat (hd b)) (CHR ''0'')"
proof -
  from compress_nonempty [OF assms, of self] obtain root b where
    r: "get_encoded_text (build_codes self root []) text =
             Inr (concat (map (\<lambda>c. the (codes (build_codes self root []) c)) text))"
       "concat (map byte_bits b) = pad_encoded_text
             (concat (map (\<lambda>c. the (codes (build_codes self root []) c)) text))"
       "compress self text =
             (build_codes self root [], Returned True (Text ''Compression successful''),
              Some (reverse_mapping (build_codes self root []), b))" by blast
  let ?enc = "concat (map (\<lambda>c. the (codes (build_codes self root []) c)) text)"
  from header_byte [OF r(2)] have h: "b \<noteq> []" "unat (hd b) = 8 - length ?enc mod 8" by auto
  then have "1 \<le> unat (hd b)" "unat (hd b) \<le> 8" by simp_all
  moreover have "concat (map byte_bits (tl b)) = ?enc @ replicate (unat (hd b)) (CHR ''0'')"
    using payload_after_header [OF r(2)] h(2) by simp
  ultimately show ?thesis using r(1,3) h by blast
qed

lemma compress_artifact_nonempty:
  assumes "compress self text = (self', out, Some (rm, b))"
  shows "b \<noteq> []"
proof -
  from assms have "text \<noteq> []" by (auto simp: compress_def)
  from compress_header [OF this, of self] assms show ?thesis by auto
qed

lemma decompress_padding_nine:
  assumes "b \<noteq> []"
  shows "decompress self (rm, b[0 := 9]) =
      (self\<lparr>reverse_mapping := rm\<rparr>, Returned True (Text ''Decompression successful''),
       Some (decode_text (self\<lparr>reverse_mapping := rm\<rparr>)
              (take (8 * (length b - 1) - 9) (concat (map byte_bits (tl b))))))"
proof -
  from assms obtain x bs where b: "b = x # bs" by (cases b) auto
  let ?s = "concat (map byte_bits (9 # bs))"
  have "int2 (take 8 ?s) = Inr 9" by simp
  from remove_padding_header [OF this]
  have "remove_padding ?s = Inr (take (8 * length bs - 9) (concat (map byte_bits bs)))"
    by simp
  with b show ?thesis by (simp add: decompress_def Let_def)
qed

section \<open>The reverse mapping written by \<open>build_codes\<close>\<close>

lemma distinct_codes_paths: "distinct (map snd (paths t p))"
proof (induction t arbitrary: p)
  case (Leaf c f)
  show ?case by simp
next
  case (Merged f l r)
  have "snd ` set (paths l (p @ ''0'')) \<inter> snd ` set (paths r (p @ ''1'')) = {}"
  proof (rule ccontr)
    assume "\<not> ?thesis"
    then obtain q c1 c2 where "(c1, q) \<in> set (paths l (p @ ''0''))"
      "(c2, q) \<in> set (paths r (p @ ''1''))" by force
    then have "prefix (p @ ''0'') q" "prefix (p @ ''1'') q"
      by (auto dest: paths_extend)
    then show False by (rule branches_differ)
  qed
  with Merged.IH show ?case by simp
qed

lemma reverse_mapping_build_codes_member:
  assumes "(c, q) \<in> set (paths t p)"
  shows "reverse_mapping (build_codes self t p) q = Some c"
proof -
  let ?ps = "rev (map (\<lambda>(c, q). (q, c)) (paths t p))"
  have "map fst ?ps = rev (map snd (paths t p))"
    by (simp add: rev_map case_prod_unfold comp_def)
  then have "distinct (map fst ?ps)" using distinct_codes_paths [of t p] by simp
  moreover have "(q, c) \<in> set ?ps" using assms by force
  ultimately have "map_of ?ps q = Some c" by (rule map_of_is_SomeI)
  then show ?thesis by (simp add: reverse_mapping_build_codes)
qed

lemma reverse_mapping_build_codes_other:
  assumes "q \<notin> snd ` set (paths t p)"
  shows "reverse_mapping (build_codes self t p) q = reverse_mapping self q"
proof -
  let ?ps = "rev (map (\<lambda>(c, q). (q, c)) (paths t p))"
  have "fst ` set ?ps = snd ` set (paths t p)" by force
  with assms have "map_of ?ps q = None" by (simp only: map_of_eq_None_iff not_False_eq_True)
  then show ?thesis by (simp add: reverse_mapping_build_codes map_add_def)
qed

lemma symbols_nonempty: "symbols t \<noteq> []"
  by (induction t) auto

lemma two_symbols_merged:
  assumes "a \<in> set (symbols t)" "b \<in> set (symbols t)" "a \<noteq> b"
  shows "\<exists>f l r. t = Merged f l r"
  using assms by (cases t) auto

lemma merged_code_nonempty:
  "(c, q) \<in> set (paths (Merged f l r) p) \<Longrightarrow> q \<noteq> []"
  by (auto dest!: paths_extend)

lemma paths_no_proper_prefix:
  assumes "distinct (symbols t)" "(c, q) \<in> set (paths t p)" "k < length q"
  shows "take k q \<notin> snd ` set (paths t p)"
proof
  assume "take k q \<in> snd ` set (paths t p)"
  then obtain c' where c': "(c', take k q) \<in> set (paths t p)" by force
  have pre: "prefix (take k q) q" by (rule take_is_prefix)
  show False
  proof (cases "c' = c")
    case True
    have "distinct (map fst (paths t p))" using assms(1) by (simp add: keys_paths)
    with c' assms(2) True have "take k q = q"
      by (metis map_of_is_SomeI option.inject)
    with assms(3) show False by (metis length_take min.absorb4 nat_neq_iff)
  next
    case False
    from paths_prefix_free [OF c' assms(2) False] pre show False by simp
  qed
qed

section \<open>Decoding a concatenation of codes\<close>

lemma decode_loop_code:
  assumes "rm (cur @ q) = Some c" "q \<noteq> []"
    and "\<And>k. 0 < k \<Longrightarrow> k < length q \<Longrightarrow> rm (cur @ take k q) = None"
  shows "decode_loop rm cur out (q @ rest) = decode_loop rm [] (out @ [c]) rest"
  using assms
proof (induction q arbitrary: cur)
  case Nil
  then show ?case by simp
next
  case (Cons b q)
  show ?case
  proof (cases "q = []")
    case True
    with Cons.prems(1) show ?thesis by simp
  next
    case False
    have none: "rm (cur @ [b]) = None"
      using Cons.prems(3) [of 1] False by (cases q) auto
    have 1: "rm ((cur @ [b]) @ q) = Some c" using Cons.prems(1) by simp
    have 2: "rm ((cur @ [b]) @ take k q) = None" if "0 < k" "k < length q" for k
      using Cons.prems(3) [of "Suc k"] that by simp
    from Cons.IH [OF 1 False 2] none show ?thesis by simp
  qed
qed

lemma decode_loop_codes:
  assumes "\<And>c. c \<in> set text \<Longrightarrow> code c \<noteq> [] \<and> rm (code c) = Some c \<and>
              (\<forall>k. 0 < k \<and> k < length (code c) \<longrightarrow> rm (take k (code c)) = None)"
  shows "decode_loop rm [] out (concat (map code text)) = ([], out @ text)"
  using assms
proof (induction "text" arbitrary: out)
  case Nil
  show ?case by simp
next
  case (Cons c cs)
  have "decode_loop rm [] out (code c @ concat (map code cs)) =
        decode_loop rm [] (out @ [c]) (concat (map code cs))"
    using Cons.prems [of c] by (intro decode_loop_code) auto
  then show ?case using Cons.IH [of "out @ [c]"] Cons.prems by simp
qed

section \<open>The round trip with a new instance\<close>

text \<open>
  With a new instance and an input that holds at least two distinct bytes, decompressing
  the artifact written by \<open>compress\<close> gives back the input.
\<close>

lemma round_trip_two_symbols:
  assumes "a \<in> set text" "b \<in> set text" "a \<noteq> b"
  shows "\<exists>self' rm data.
           compress init text =
             (self', Returned True (Text ''Compression successful''), Some (rm, data)) \<and>
           decompress self2 (rm, data) =
             (self2\<lparr>reverse_mapping := rm\<rparr>, Returned True (Text ''Decompression successful''),
              Some text)"
proof -
  from assms(1) have "text \<noteq> []" by auto
  from compress_nonempty [OF this, of init] obtain root data where
    r: "distinct (symbols root)" "set (symbols root) = set text"
       "concat (map byte_bits data) = pad_encoded_text
             (concat (map (\<lambda>c. the (codes (build_codes init root []) c)) text))"
       "compress init text =
             (build_codes init root [], Returned True (Text ''Compression successful''),
              Some (reverse_mapping (build_codes init root []), data))" by blast
  let ?self = "build_codes init root []"
  let ?rm = "reverse_mapping ?self"
  let ?code = "\<lambda>c. the (codes ?self c)"
  from assms r(2) obtain f l r' where m: "root = Merged f l r'"
    using two_symbols_merged [of a root b] by auto
  have dec: "decode_loop ?rm [] [] (concat (map ?code text)) = ([], [] @ text)"
  proof (rule decode_loop_codes)
    fix c assume "c \<in> set text"
    with r(2) obtain q where q: "(c, q) \<in> set (paths root [])"
      using symbol_has_path [of c root "[]"] by auto
    have cq: "?code c = q" using codes_build_codes_member [OF r(1) q, of init] by simp
    have ne: "q \<noteq> []" using q merged_code_nonempty unfolding m by blast
    have rq: "?rm q = Some c" using reverse_mapping_build_codes_member [OF q] .
    have "?rm (take k q) = None" if "k < length q" for k
      using reverse_mapping_build_codes_other [OF paths_no_proper_prefix [OF r(1) q that], of init]
      by (simp add: init_def)
    with cq ne rq
    show "?code c \<noteq> [] \<and> ?rm (?code c) = Some c \<and>
          (\<forall>k. 0 < k \<and> k < length (?code c) \<longrightarrow> ?rm (take k (?code c)) = None)"
      by simp
  qed
  have "decompress self2 (?rm, data) =
          (self2\<lparr>reverse_mapping := ?rm\<rparr>, Returned True (Text ''Decompression successful''),
           Some text)"
    using dec by (simp add: decompress_def Let_def r(3) remove_pad decode_text_def)
  with r(4) show ?thesis by blast
qed

text \<open>
  With a new instance and an input that holds one distinct byte, the root is a leaf, its
  code is the empty string, the payload is the header 8 and one byte of zeros whatever
  the length of the input, and decompressing the artifact gives no bytes.
\<close>

lemma one_symbol_leaf:
  assumes "distinct (symbols t)" "set (symbols t) = {c}"
  shows "\<exists>f. t = Leaf c f"
proof (cases t)
  case (Leaf c' f)
  with assms(2) show ?thesis by simp
next
  case (Merged f l r)
  obtain x xs where l: "symbols l = x # xs" using symbols_nonempty [of l] by (cases "symbols l") auto
  obtain y ys where r: "symbols r = y # ys" using symbols_nonempty [of r] by (cases "symbols r") auto
  from assms(1) Merged l r have "x \<noteq> y" by auto
  moreover from assms(2) Merged l r have "x = c" "y = c" by auto
  ultimately show ?thesis by simp
qed

lemma round_trip_one_symbol:
  assumes "text \<noteq> []" "set text = {c}"
  shows "\<exists>f. compress init text =
             (build_codes init (Leaf c f) [], Returned True (Text ''Compression successful''),
              Some ([[] \<mapsto> c], [8, 0])) \<and>
           codes (build_codes init (Leaf c f) []) c = Some [] \<and>
           decompress self2 ([[] \<mapsto> c], [8, 0]) =
             (self2\<lparr>reverse_mapping := [[] \<mapsto> c]\<rparr>,
              Returned True (Text ''Decompression successful''), Some [])"
proof -
  from compress_nonempty [OF assms(1), of init] obtain root data where
    r: "distinct (symbols root)" "set (symbols root) = set text"
       "get_byte_array (pad_encoded_text
             (concat (map (\<lambda>c. the (codes (build_codes init root []) c)) text))) = Inr data"
       "compress init text =
             (build_codes init root [], Returned True (Text ''Compression successful''),
              Some (reverse_mapping (build_codes init root []), data))" by blast
  from one_symbol_leaf [OF r(1)] r(2) assms(2) obtain f where f: "root = Leaf c f" by auto
  have e: "concat (map (\<lambda>c. the (codes (build_codes init root []) c)) text) = []"
    using assms(2) by (auto simp: f)
  have g: "get_byte_array (pad_encoded_text []) = Inr [8, 0]" by code_simp
  have d: "data = [8, 0]" using r(3) unfolding e g by simp
  have rp: "remove_padding (concat (map byte_bits [8, 0])) = Inr []" by code_simp
  have "decompress self2 ([[] \<mapsto> c], [8, 0]) =
             (self2\<lparr>reverse_mapping := [[] \<mapsto> c]\<rparr>,
              Returned True (Text ''Decompression successful''), Some [])"
    by (simp add: decompress_def Let_def rp decode_text_def del: concat.simps list.map)
  with r(4) d show ?thesis by (auto simp: f init_def)
qed

section \<open>Concrete runs\<close>

text \<open>The run of \<open>compress\<close> on \<open>b"aaabbc"\<close> with a new instance.\<close>

lemma compress_aaabbc:
  "compress init [97, 97, 97, 98, 98, 99] =
     (build_codes init (Merged 6 (Leaf 97 3) (Merged 3 (Leaf 99 (Suc 0)) (Leaf 98 2))) [],
      Returned True (Text ''Compression successful''),
      Some ([''0'' \<mapsto> 97, ''10'' \<mapsto> 99, ''11'' \<mapsto> 98], [7, 31, 0]))"
proof -
  let ?X = "[97, 97, 97, 98, 98, 99] :: byte list"
  let ?T = "Merged 6 (Leaf 97 3) (Merged 3 (Leaf 99 (Suc 0)) (Leaf 98 2))"
  have t: "build_tree (build_heap (build_frequency_dict ?X)) = Inr (Some ?T)"
    by code_simp
  have e: "get_encoded_text (build_codes init ?T []) ?X = Inr ''000111110''"
    by code_simp
  have g: "get_byte_array (pad_encoded_text ''000111110'') = Inr [7, 31, 0]"
    by code_simp
  have r: "reverse_mapping (build_codes init ?T []) = [''0'' \<mapsto> 97, ''10'' \<mapsto> 99, ''11'' \<mapsto> 98]"
    by (simp add: init_def)
  have "compress init ?X =
          (build_codes init ?T [], Returned True (Text ''Compression successful''),
           Some (reverse_mapping (build_codes init ?T []), [7, 31, 0]))"
    by (simp add: compress_def t e g build_codes_root_def Let_def del: build_codes.simps)
  then show ?thesis
    by (simp only: r)
qed

text \<open>The run of \<open>compress\<close> on 1000 bytes of value 7 with a new instance.\<close>

lemma compress_thousand_sevens:
  "compress init (replicate 1000 7) =
     (build_codes init (Leaf 7 1000) [], Returned True (Text ''Compression successful''),
      Some ([[] \<mapsto> 7], [8, 0]))"
proof -
  have t: "build_tree (build_heap (build_frequency_dict (replicate 1000 7))) =
           Inr (Some (Leaf 7 1000))"
    by code_simp
  have e: "get_encoded_text (build_codes init (Leaf 7 1000) []) (replicate 1000 7) = Inr []"
    by code_simp
  have g: "get_byte_array (pad_encoded_text []) = Inr [8, 0]"
    by code_simp
  have r: "reverse_mapping (build_codes init (Leaf 7 1000) []) = [[] \<mapsto> 7]"
    by (simp add: init_def)
  have "compress init (replicate 1000 7) =
          (build_codes init (Leaf 7 1000) [], Returned True (Text ''Compression successful''),
           Some (reverse_mapping (build_codes init (Leaf 7 1000) []), [8, 0]))"
    by (simp add: compress_def t e g build_codes_root_def Let_def del: build_codes.simps)
  then show ?thesis
    by (simp only: r)
qed

text \<open>
  Two runs of \<open>compress\<close> on \<open>bytes([1, 2, 3])\<close>: with a new instance, and with the
  instance left by compressing \<open>bytes([1, 2])\<close>.
\<close>

lemma compress_123_fresh:
  "snd (snd (compress init [1, 2, 3])) =
     Some ([''0'' \<mapsto> 3, ''10'' \<mapsto> 1, ''11'' \<mapsto> 2], [3, 176])"
proof -
  let ?B = "[1, 2, 3] :: byte list"
  let ?T = "Merged 3 (Leaf 3 (Suc 0)) (Merged 2 (Leaf 1 (Suc 0)) (Leaf 2 (Suc 0)))"
  have t: "build_tree (build_heap (build_frequency_dict ?B)) = Inr (Some ?T)"
    by code_simp
  have e: "get_encoded_text (build_codes init ?T []) ?B = Inr ''10110''"
    by code_simp
  have g: "get_byte_array (pad_encoded_text ''10110'') = Inr [3, 176]"
    by code_simp
  have "compress init ?B =
          (build_codes init ?T [], Returned True (Text ''Compression successful''),
           Some (reverse_mapping (build_codes init ?T []), [3, 176]))"
    by (simp add: compress_def t e g build_codes_root_def Let_def del: build_codes.simps)
  then show ?thesis
    by (simp add: init_def)
qed

lemma compress_123_reused:
  "snd (snd (compress (fst (compress init [1, 2])) [1, 2, 3])) =
     Some ([''0'' \<mapsto> 1, ''1'' \<mapsto> 2, ''0'' \<mapsto> 3, ''10'' \<mapsto> 1, ''11'' \<mapsto> 2], [3, 176])"
proof -
  let ?A = "[1, 2] :: byte list"
  let ?B = "[1, 2, 3] :: byte list"
  let ?TA = "Merged 2 (Leaf 1 (Suc 0)) (Leaf 2 (Suc 0))"
  let ?T = "Merged 3 (Leaf 3 (Suc 0)) (Merged 2 (Leaf 1 (Suc 0)) (Leaf 2 (Suc 0)))"
  have ta: "build_tree (build_heap (build_frequency_dict ?A)) = Inr (Some ?TA)"
    by code_simp
  have ea: "get_encoded_text (build_codes init ?TA []) ?A = Inr ''01''"
    by code_simp
  have ga: "get_byte_array (pad_encoded_text ''01'') = Inr [6, 64]"
    by code_simp
  have a: "fst (compress init ?A) = build_codes init ?TA []"
    by (simp add: compress_def ta ea ga build_codes_root_def Let_def del: build_codes.simps)
  have t: "build_tree (build_heap (build_frequency_dict ?B)) = Inr (Some ?T)"
    by code_simp
  have e: "get_encoded_text (build_codes (build_codes init ?TA []) ?T []) ?B = Inr ''10110''"
    by code_simp
  have g: "get_byte_array (pad_encoded_text ''10110'') = Inr [3, 176]"
    by code_simp
  have "compress (build_codes init ?TA []) ?B =
          (build_codes (build_codes init ?TA []) ?T [],
           Returned True (Text ''Compression successful''),
           Some (reverse_mapping (build_codes (build_codes init ?TA []) ?T []), [3, 176]))"
    by (simp add: compress_def t e g build_codes_root_def Let_def del: build_codes.simps)
  then show ?thesis
    unfolding a by (simp add: init_def)
qed

section \<open>Properties of the codec\<close>

text \<open>
  C7.  Compressing an empty buffer returns the failure pair \<open>(False, "File is empty")\<close>,
  writes no artifact and leaves the instance unchanged.
\<close>

theorem compress_empty_input:
  "compress self [] = (self, Returned False (Text ''File is empty''), None)"
  by (simp add: compress_def)

text \<open>
  C9.  Removing the padding from a padded bit sequence gives back the sequence:
  \<open>remove_padding(pad_encoded_text(s)) == s\<close>, for every string \<open>s\<close>.
\<close>

theorem remove_padding_pad_encoded_text:
  "remove_padding (pad_encoded_text s) = Inr s"
  by (rule remove_pad)

text \<open>
  C10.  As stated the claim fails for a header of 0: \<open>s[:-0]\<close> is \<open>s[:0]\<close>, so after a
  zero header nothing of the remainder is kept.  The string below is the bit string that
  \<open>decompress\<close> builds from the payload bytes 0 and 31.
\<close>

theorem remove_padding_zero_header_counterexample:
  "concat (map byte_bits [0, 31]) = ''0000000000011111'' \<and>
   int2 (take 8 ''0000000000011111'') = Inr 0 \<and>
   drop 8 ''0000000000011111'' = ''00011111'' \<and>
   remove_padding ''0000000000011111'' = Inr []"
  by code_simp

text \<open>
  C10, amended.  For a padded bit string whose first 8 bits decode to \<open>p\<close> with
  \<open>p > 0\<close>, the unpacker drops the 8 header bits and the last \<open>p\<close> bits of the rest
  (all of the rest when it has fewer than \<open>p\<close> bits).
\<close>

theorem remove_padding_drops_header_and_tail:
  "int2 (take 8 s) = Inr p \<Longrightarrow> 0 < p \<Longrightarrow>
   remove_padding s = Inr (take (length (drop 8 s) - p) (drop 8 s))"
  by (simp add: remove_padding_header)

theorem remove_padding_drops_header_and_tail_witness:
  "int2 (take 8 ''0000001110110000'') = Inr 3 \<and> (0::nat) < 3 \<and>
   remove_padding ''0000001110110000'' = Inr ''10110''"
proof -
  have h: "int2 (take 8 ''0000001110110000'') = Inr 3"
    by code_simp
  have "remove_padding ''0000001110110000'' =
        Inr (take (length (drop 8 ''0000001110110000'') - 3) (drop 8 ''0000001110110000''))"
    using remove_padding_drops_header_and_tail [OF h] by simp
  then show ?thesis using h by simp
qed

text \<open>
  C8.  After compressing a non-empty input, the code table is prefix-free on the
  alphabet of that input: two distinct bytes of the input have codes, and the code of
  the first is not a prefix of the code of the second.  This holds whatever the
  dictionaries of the instance held before the call.
\<close>

theorem code_table_prefix_free:
  assumes "s1 \<in> set text" "s2 \<in> set text" "s1 \<noteq> s2"
  shows "\<exists>c1 c2. codes (fst (compress self text)) s1 = Some c1 \<and>
                 codes (fst (compress self text)) s2 = Some c2 \<and> \<not> prefix c1 c2"
proof -
  from assms(1) have "text \<noteq> []" by auto
  from compress_nonempty [OF this, of self] obtain root b where
    r: "distinct (symbols root)" "set (symbols root) = set text"
       "compress self text =
          (build_codes self root [], Returned True (Text ''Compression successful''),
           Some (reverse_mapping (build_codes self root []), b))" by blast
  from assms(1,2) r(2) obtain q1 q2 where
    q: "(s1, q1) \<in> set (paths root [])" "(s2, q2) \<in> set (paths root [])"
    using symbol_has_path [of s1 root "[]"] symbol_has_path [of s2 root "[]"] by auto
  have "\<not> prefix q1 q2" using paths_prefix_free [OF q assms(3)] .
  with codes_build_codes_member [OF r(1) q(1), of self]
       codes_build_codes_member [OF r(1) q(2), of self] r(3)
  show ?thesis by simp
qed

theorem code_table_prefix_free_witness:
  "(97::byte) \<in> set [97, 97, 97, 98, 98, 99] \<and> (99::byte) \<in> set [97, 97, 97, 98, 98, 99] \<and>
   (97::byte) \<noteq> 99 \<and>
   (\<exists>c1 c2. codes (fst (compress init [97, 97, 97, 98, 98, 99])) 97 = Some c1 \<and>
            codes (fst (compress init [97, 97, 97, 98, 98, 99])) 99 = Some c2 \<and>
            \<not> prefix c1 c2)"
  using code_table_prefix_free [of 97 "[97, 97, 97, 98, 98, 99]" 99 init] by simp

text \<open>
  C3.  As stated the claim fails: when the code bits are already byte-aligned the
  header is 8, not 0, and a whole byte of zeros is appended.  The input below encodes to
  8 bits; the formula of the claim gives 0, the artifact's first byte is 8.
\<close>

theorem padding_count_aligned_counterexample:
  "get_encoded_text (fst (compress init [1, 2, 1, 2, 1, 2, 1, 2])) [1, 2, 1, 2, 1, 2, 1, 2] =
     Inr ''01010101'' \<and>
   (8 - length ''01010101'' mod 8) mod 8 = (0::nat) \<and>
   map_option snd (snd (snd (compress init [1, 2, 1, 2, 1, 2, 1, 2]))) = Some [8, 85, 0]"
  by code_simp

text \<open>
  C3, amended.  For every non-empty input the call succeeds, and the first byte of the
  payload is \<open>8 - (bit length mod 8)\<close>, a value from 1 to 8.  The bytes after it hold
  the code bits followed by exactly that many zero bits, so a whole byte of zeros is
  appended when the code bits are byte-aligned and the header is 8.
\<close>

theorem padding_count_range:
  assumes "text \<noteq> []"
  shows "\<exists>self' out rm b enc.
           compress self text = (self', out, Some (rm, b)) \<and>
           get_encoded_text self' text = Inr enc \<and> b \<noteq> [] \<and>
           unat (hd b) = 8 - length enc mod 8 \<and> 1 \<le> unat (hd b) \<and> unat (hd b) \<le> 8 \<and>
           concat (map byte_bits (tl b)) = enc @ replicate (unat (hd b)) (CHR ''0'')"
  using assms by (rule compress_header)

theorem padding_count_range_witness:
  "[1, 2, 1, 2, 1, 2, 1, 2 :: byte] \<noteq> [] \<and>
   (\<exists>self' out rm b enc.
      compress init [1, 2, 1, 2, 1, 2, 1, 2] = (self', out, Some (rm, b)) \<and>
      get_encoded_text self' [1, 2, 1, 2, 1, 2, 1, 2] = Inr enc \<and> b \<noteq> [] \<and>
      unat (hd b) = 8 - length enc mod 8 \<and> 1 \<le> unat (hd b) \<and> unat (hd b) \<le> 8 \<and>
      concat (map byte_bits (tl b)) = enc @ replicate (unat (hd b)) (CHR ''0'')) \<and>
   map_option snd (snd (snd (compress init [1, 2, 1, 2, 1, 2, 1, 2]))) = Some [8, 85, 0] \<and>
   concat (map byte_bits (tl [8, 85, 0])) = ''01010101'' @ replicate (unat (8 :: byte)) (CHR ''0'')"
proof -
  have c: "map_option snd (snd (snd (compress init [1, 2, 1, 2, 1, 2, 1, 2]))) = Some [8, 85, 0]"
    by code_simp
  have t: "concat (map byte_bits (tl [8, 85, 0])) =
           ''01010101'' @ replicate (unat (8 :: byte)) (CHR ''0'')"
    by code_simp
  have n: "[1, 2, 1, 2, 1, 2, 1, 2 :: byte] \<noteq> []" by simp
  from padding_count_range [OF n, of init] n c t show ?thesis by blast
qed

text \<open>
  C5.  As stated the claim fails: with the padding byte of the artifact of
  \<open>b"aaabbc"\<close> set to 9, \<open>decompress\<close> returns \<open>(True, "Decompression successful")\<close>
  and writes the five bytes \<open>b"aaabb"\<close>.
\<close>

theorem padding_nine_counterexample:
  "snd (snd (compress init [97, 97, 97, 98, 98, 99])) =
     Some ([''0'' \<mapsto> 97, ''10'' \<mapsto> 99, ''11'' \<mapsto> 98], [7, 31, 0]) \<and>
   snd (decompress init ([''0'' \<mapsto> 97, ''10'' \<mapsto> 99, ''11'' \<mapsto> 98], [9, 31, 0])) =
     (Returned True (Text ''Decompression successful''), Some [97, 97, 97, 98, 98])"
proof -
  have "snd (decompress init ([''0'' \<mapsto> 97, ''10'' \<mapsto> 99, ''11'' \<mapsto> 98], [9, 31, 0])) =
     (Returned True (Text ''Decompression successful''), Some [97, 97, 97, 98, 98])"
    by code_simp
  then show ?thesis by (simp add: compress_aaabbc)
qed

text \<open>
  C5, amended.  For every artifact written by \<open>compress\<close>, with its padding byte set
  to 9, \<open>decompress\<close> (on any instance) returns success and writes what the payload
  bits decode to after the last 9 of them are dropped.  No check of the padding count
  exists.
\<close>

theorem padding_nine_decompresses:
  assumes "compress self text = (self', out, Some (rm, b))"
  shows "decompress self2 (rm, b[0 := 9]) =
      (self2\<lparr>reverse_mapping := rm\<rparr>, Returned True (Text ''Decompression successful''),
       Some (decode_text (self2\<lparr>reverse_mapping := rm\<rparr>)
              (take (8 * (length b - 1) - 9) (concat (map byte_bits (tl b))))))"
  using compress_artifact_nonempty [OF assms] by (rule decompress_padding_nine)

theorem padding_nine_decompresses_witness:
  "compress init [97, 97, 97, 98, 98, 99] =
     (build_codes init (Merged 6 (Leaf 97 3) (Merged 3 (Leaf 99 (Suc 0)) (Leaf 98 2))) [],
      Returned True (Text ''Compression successful''),
      Some ([''0'' \<mapsto> 97, ''10'' \<mapsto> 99, ''11'' \<mapsto> 98], [7, 31, 0])) \<and>
   decompress init ([''0'' \<mapsto> 97, ''10'' \<mapsto> 99, ''11'' \<mapsto> 98], [9, 31, 0]) =
     (init\<lparr>reverse_mapping := [''0'' \<mapsto> 97, ''10'' \<mapsto> 99, ''11'' \<mapsto> 98]\<rparr>,
      Returned True (Text ''Decompression successful''), Some [97, 97, 97, 98, 98])"
proof -
  let ?rm = "[''0'' \<mapsto> 97, ''10'' \<mapsto> 99, ''11'' \<mapsto> 98 :: byte]"
  have d: "decode_text (init\<lparr>reverse_mapping := ?rm\<rparr>)
             (take (8 * (length [7, 31, 0 :: byte] - 1) - 9)
                (concat (map byte_bits (tl [7, 31, 0])))) = [97, 97, 97, 98, 98]"
    by code_simp
  have "decompress init (?rm, [7, 31, 0][0 := 9]) =
      (init\<lparr>reverse_mapping := ?rm\<rparr>, Returned True (Text ''Decompression successful''),
       Some (decode_text (init\<lparr>reverse_mapping := ?rm\<rparr>)
              (take (8 * (length [7, 31, 0 :: byte] - 1) - 9)
                 (concat (map byte_bits (tl [7, 31, 0]))))))"
    using padding_nine_decompresses [OF compress_aaabbc, of init] .
  then have "decompress init (?rm, [9, 31, 0]) =
      (init\<lparr>reverse_mapping := ?rm\<rparr>, Returned True (Text ''Decompression successful''),
       Some [97, 97, 97, 98, 98])"
    by (simp only: d list_update_code)
  then show ?thesis using compress_aaabbc by simp
qed

text \<open>
  C6.  As stated the claim fails: the artifact below leaves the candidate \<open>1\<close>
  unmatched when the bits run out, and \<open>decompress\<close> returns success with the bytes
  decoded before it.
\<close>

theorem residual_bits_counterexample:
  "remove_padding (concat (map byte_bits [8, 31, 0])) = Inr ''00011111'' \<and>
   decode_loop [''0'' \<mapsto> 97, ''10'' \<mapsto> 99, ''11'' \<mapsto> 98] [] [] ''00011111'' =
     (''1'', [97, 97, 97, 98, 98]) \<and>
   snd (decompress init ([''0'' \<mapsto> 97, ''10'' \<mapsto> 99, ''11'' \<mapsto> 98], [8, 31, 0])) =
     (Returned True (Text ''Decompression successful''), Some [97, 97, 97, 98, 98])"
  by code_simp

text \<open>
  C6, amended.  If a non-empty candidate remains when decoding has consumed all the
  bits, \<open>decompress\<close> still returns \<open>(True, "Decompression successful")\<close> and writes the
  bytes decoded before the residue; the residue is dropped without a report.
\<close>

theorem residual_bits_ignored:
  assumes "remove_padding (concat (map byte_bits b)) = Inr enc"
    and "decode_loop rm [] [] enc = (residual, decoded)"
    and "residual \<noteq> []"
  shows "decompress self (rm, b) =
      (self\<lparr>reverse_mapping := rm\<rparr>, Returned True (Text ''Decompression successful''),
       Some decoded)"
  using assms(1,2) by (simp add: decompress_def decode_text_def Let_def)

theorem residual_bits_ignored_witness:
  "remove_padding (concat (map byte_bits [8, 31, 0])) = Inr ''00011111'' \<and>
   decode_loop [''0'' \<mapsto> 97, ''10'' \<mapsto> 99, ''11'' \<mapsto> 98] [] [] ''00011111'' =
     (''1'', [97, 97, 97, 98, 98]) \<and>
   ''1'' \<noteq> [] \<and>
   decompress init ([''0'' \<mapsto> 97, ''10'' \<mapsto> 99, ''11'' \<mapsto> 98], [8, 31, 0]) =
     (init\<lparr>reverse_mapping := [''0'' \<mapsto> 97, ''10'' \<mapsto> 99, ''11'' \<mapsto> 98]\<rparr>,
      Returned True (Text ''Decompression successful''), Some [97, 97, 97, 98, 98])"
proof -
  have h1: "remove_padding (concat (map byte_bits [8, 31, 0])) = Inr ''00011111''"
    by code_simp
  have h2: "decode_loop [''0'' \<mapsto> 97, ''10'' \<mapsto> 99, ''11'' \<mapsto> 98] [] [] ''00011111'' =
     (''1'', [97, 97, 97, 98, 98])"
    by code_simp
  have h3: "''1'' \<noteq> []" by simp
  from residual_bits_ignored [OF h1 h2 h3, of init] h1 h2 h3 show ?thesis by blast
qed

text \<open>
  C1.  The round trip fails on 1000 bytes of value 7 (and on any input with a single
  distinct byte): the only code is the empty string, the payload holds the header and
  one byte of padding, and decompressing the artifact gives no bytes at all.
\<close>

theorem single_symbol_round_trip_fails:
  "snd (snd (compress init (replicate 1000 7))) = Some ([[] \<mapsto> 7], [8, 0]) \<and>
   snd (decompress init ([[] \<mapsto> 7], [8, 0])) =
     (Returned True (Text ''Decompression successful''), Some [])"
proof -
  have "snd (decompress init ([[] \<mapsto> 7], [8, 0])) =
     (Returned True (Text ''Decompression successful''), Some [])"
    by code_simp
  then show ?thesis by (simp add: compress_thousand_sevens)
qed

text \<open>
  C2.  With one distinct byte in the input the root of the tree is a leaf, and
  \<open>build_codes\<close> stores the empty string as its code.
\<close>

theorem single_symbol_code_is_empty:
  "build_tree (build_heap (build_frequency_dict [7, 7, 7])) = Inr (Some (Leaf 7 3)) \<and>
   codes (fst (compress init [7, 7, 7])) 7 = Some []"
  by code_simp

text \<open>
  C4.  The dictionaries of an instance are never reset.  Compressing \<open>bytes([1, 2, 3])\<close>
  after \<open>bytes([1, 2])\<close> on the same instance stores a reverse mapping that still maps
  \<open>1\<close> to the byte 2; a new instance stores none for \<open>1\<close>.  The payloads agree, and
  decompressing the artifact of the reused instance gives five bytes, not the input.
\<close>

theorem reused_instance_keeps_stale_codes:
  "snd (snd (compress init [1, 2, 3])) =
     Some ([''0'' \<mapsto> 3, ''10'' \<mapsto> 1, ''11'' \<mapsto> 2], [3, 176]) \<and>
   snd (snd (compress (fst (compress init [1, 2])) [1, 2, 3])) =
     Some ([''0'' \<mapsto> 1, ''1'' \<mapsto> 2, ''0'' \<mapsto> 3, ''10'' \<mapsto> 1, ''11'' \<mapsto> 2], [3, 176]) \<and>
   [''0'' \<mapsto> 3, ''10'' \<mapsto> 1, ''11'' \<mapsto> 2 :: byte] ''1'' = None \<and>
   [''0'' \<mapsto> 1, ''1'' \<mapsto> 2, ''0'' \<mapsto> 3, ''10'' \<mapsto> 1, ''11'' \<mapsto> 2 :: byte] ''1'' = Some 2 \<and>
   snd (decompress init
          ([''0'' \<mapsto> 1, ''1'' \<mapsto> 2, ''0'' \<mapsto> 3, ''10'' \<mapsto> 1, ''11'' \<mapsto> 2], [3, 176])) =
     (Returned True (Text ''Decompression successful''), Some [2, 3, 2, 2, 3])"
proof -
  have "snd (decompress init
          ([''0'' \<mapsto> 1, ''1'' \<mapsto> 2, ''0'' \<mapsto> 3, ''10'' \<mapsto> 1, ''11'' \<mapsto> 2], [3, 176])) =
     (Returned True (Text ''Decompression successful''), Some [2, 3, 2, 2, 3])"
    by code_simp
  then show ?thesis
    using compress_123_fresh compress_123_reused by simp
qed

end
